theory Spec2Isabelle
  imports Main "HOL-Library.Word" "HOL-Library.Stream"
begin

unbundle bit_operations_syntax

section \<open>The entropy facility\<close>

text \<open>
  The package draws every byte from \<^verbatim>\<open>crypto/rand.Read\<close>. What the operating system
  will deliver is not known to the program, so it is the parameter of the model: a
  stream of cells, each either the next random byte or a failure of the facility.
  The stream never ends, as the facility never runs out; a read that reaches a
  \<open>Fault\<close> cell stops there and reports the error.
\<close>

type_synonym byte = "8 word"
type_synonym uint64 = "64 word"
type_synonym int64 = "64 word"

datatype error = EntropyError nat

datatype cell = Byte byte | Fault error

type_synonym entropy = "cell stream"

text \<open>
  \<^verbatim>\<open>rand.Read(b)\<close> is \<^verbatim>\<open>io.ReadFull\<close> on the system reader: it overwrites \<open>b\<close> from the
  front until \<open>b\<close> is full or the reader fails, and returns the number of bytes
  written together with the error, which is \<^verbatim>\<open>nil\<close> exactly when \<open>b\<close> was filled. Bytes
  of \<open>b\<close> that were not reached keep their old contents. The result is the buffer after
  the call, the count, the error, and the entropy that is left.
\<close>

fun rand_Read :: "byte list \<Rightarrow> entropy \<Rightarrow> byte list \<times> nat \<times> error option \<times> entropy" where
  "rand_Read [] s = ([], 0, None, s)"
| "rand_Read (b # bs) s =
     (case shd s of
        Fault e \<Rightarrow> (b # bs, 0, Some e, stl s)
      | Byte x \<Rightarrow>
          (case rand_Read bs (stl s) of
             (bs', n, err, s') \<Rightarrow> (x # bs', Suc n, err, s')))"

section \<open>Byte order\<close>

text \<open>
  \<^verbatim>\<open>binary.BigEndian.Uint64\<close> and \<^verbatim>\<open>binary.LittleEndian.Uint64\<close> decode the first eight
  bytes of a slice and panic with an index error on a shorter one (\<open>None\<close> here).
\<close>

definition BigEndian_Uint64 :: "byte list \<Rightarrow> uint64 option" where
  "BigEndian_Uint64 b =
     (if length b < 8 then None
      else Some (ucast (b ! 7) OR push_bit 8 (ucast (b ! 6)) OR push_bit 16 (ucast (b ! 5))
        OR push_bit 24 (ucast (b ! 4)) OR push_bit 32 (ucast (b ! 3))
        OR push_bit 40 (ucast (b ! 2)) OR push_bit 48 (ucast (b ! 1))
        OR push_bit 56 (ucast (b ! 0))))"

definition LittleEndian_Uint64 :: "byte list \<Rightarrow> uint64 option" where
  "LittleEndian_Uint64 b =
     (if length b < 8 then None
      else Some (ucast (b ! 0) OR push_bit 8 (ucast (b ! 1)) OR push_bit 16 (ucast (b ! 2))
        OR push_bit 24 (ucast (b ! 3)) OR push_bit 32 (ucast (b ! 4))
        OR push_bit 40 (ucast (b ! 5)) OR push_bit 48 (ucast (b ! 6))
        OR push_bit 56 (ucast (b ! 7))))"

text \<open>\<^verbatim>\<open>math.MaxInt64\<close>, here at type \<^verbatim>\<open>uint64\<close> as in the comparison of \<^verbatim>\<open>Int63\<close>.\<close>

definition MaxInt64 :: uint64 where
  "MaxInt64 = 2 ^ 63 - 1"

text \<open>The constant \<^verbatim>\<open>mask = 1<<7 - 1\<close> of \<^verbatim>\<open>Int63\<close>, converted to a byte.\<close>

definition mask_c :: byte where
  "mask_c = push_bit 7 1 - 1"

text \<open>\<^verbatim>\<open>make([]byte, n)\<close>: a new slice of \<open>n\<close> zero bytes.\<close>

definition make :: "nat \<Rightarrow> byte list" where
  "make n = replicate n 0"

section \<open>The package\<close>

text \<open>
  A panic is a value: the entropy error that \<^verbatim>\<open>panic(err)\<close> carries, or the run-time
  index error of a slice access out of range.
\<close>

datatype panic = EntropyPanic error | IndexOutOfRange

text \<open>\<^verbatim>\<open>func Read(p []byte) (int, error) { return rand.Read(p) }\<close>\<close>

definition Read :: "byte list \<Rightarrow> entropy \<Rightarrow> byte list \<times> nat \<times> error option \<times> entropy" where
  "Read p s = rand_Read p s"

text \<open>
  \<^verbatim>\<open>func Seed(_ uint64) {}\<close> and \<^verbatim>\<open>func (ExpSource) Seed(_ uint64) {}\<close>. \<^verbatim>\<open>ExpSource\<close> is
  an empty struct and the package keeps no variable that these functions could write,
  so the only state a call could touch is the entropy that is left.
\<close>

definition Seed :: "uint64 \<Rightarrow> entropy \<Rightarrow> entropy" where
  "Seed _ s = s"

definition ExpSource_Seed :: "uint64 \<Rightarrow> entropy \<Rightarrow> entropy" where
  "ExpSource_Seed _ s = s"

text \<open>
  One pass through the body of the loop of \<^verbatim>\<open>ExpSource.Int63\<close>, up to the comparison:
  read into \<open>buf\<close>, panic on an error, clear the top bit of \<open>buf[0]\<close> in place, decode.
  It returns the decoded value and the buffer as the pass leaves it, since the next pass
  reads into the same buffer.
\<close>

definition Int63_body :: "byte list \<Rightarrow> entropy \<Rightarrow> (panic + uint64 \<times> byte list) \<times> entropy" where
  "Int63_body buf s =
     (case rand_Read buf s of
        (buf1, n, Some e, s') \<Rightarrow> (Inl (EntropyPanic e), s')
      | (buf1, n, None, s') \<Rightarrow>
          (case buf1 of
             [] \<Rightarrow> (Inl IndexOutOfRange, s')
           | b0 # rest \<Rightarrow>
               (let buf2 = (b0 AND mask_c) # rest in
                case BigEndian_Uint64 buf2 of
                  None \<Rightarrow> (Inl IndexOutOfRange, s')
                | Some x \<Rightarrow> (Inr (x, buf2), s'))))"

text \<open>
  The loop \<^verbatim>\<open>for i := 0; ; i++\<close> has no exit condition, and its counter is never read, so
  the counter is left out. The loop may run forever: \<open>None\<close> is the run that never
  returns. The returned \<^verbatim>\<open>int64(x)\<close> has the bits of \<open>x\<close>; \<open>sint\<close> reads it.
\<close>

partial_function (option) Int63_loop ::
  "byte list \<Rightarrow> entropy \<Rightarrow> ((panic + int64) \<times> entropy) option" where
  "Int63_loop buf s =
     (case Int63_body buf s of
        (Inl p, s') \<Rightarrow> Some (Inl p, s')
      | (Inr (x, buf2), s') \<Rightarrow>
          if x < MaxInt64 then Some (Inr x, s') else Int63_loop buf2 s')"

definition Int63 :: "entropy \<Rightarrow> ((panic + int64) \<times> entropy) option" where
  "Int63 s = Int63_loop (make 8) s"

definition Uint64 :: "entropy \<Rightarrow> (panic + uint64) \<times> entropy" where
  "Uint64 s =
     (case rand_Read (make 8) s of
        (buf, n, Some e, s') \<Rightarrow> (Inl (EntropyPanic e), s')
      | (buf, n, None, s') \<Rightarrow>
          (case LittleEndian_Uint64 buf of
             None \<Rightarrow> (Inl IndexOutOfRange, s')
           | Some x \<Rightarrow> (Inr x, s')))"









section \<open>Notions used in the statements\<close>

text \<open>
  The value that a pass of the loop computes from the next eight cells when it starts
  from a newly made buffer, or \<open>None\<close> when that pass panics. It is defined through the
  loop body itself and serves to say what a pass on a reused buffer must agree with.
\<close>

definition fresh_value :: "entropy \<Rightarrow> uint64 option" where
  "fresh_value s =
     (case Int63_body (make 8) s of
        (Inl p, s') \<Rightarrow> None
      | (Inr (x, buf2), s') \<Rightarrow> Some x)"

section \<open>Reading from the facility\<close>

lemma rand_Read_length:
  "rand_Read buf s = (buf', n, err, s') \<Longrightarrow> length buf' = length buf"
  by (induction buf s arbitrary: buf' n err s' rule: rand_Read.induct)
     (auto split: cell.splits prod.splits)

lemma rand_Read_ok:
  "rand_Read buf s = (buf', n, None, s') \<Longrightarrow>
   n = length buf \<and> s' = sdrop (length buf) s \<and> stake (length buf) s = map Byte buf'"
  by (induction buf s arbitrary: buf' n s' rule: rand_Read.induct)
     (auto split: cell.splits prod.splits)

lemma rand_Read_fault:
  "rand_Read buf s = (buf', n, Some e, s') \<Longrightarrow>
   n < length buf \<and> s !! n = Fault e \<and> s' = sdrop (Suc n) s \<and>
   stake n s = map Byte (take n buf') \<and> drop n buf' = drop n buf"
  by (induction buf s arbitrary: buf' n s' rule: rand_Read.induct)
     (auto split: cell.splits prod.splits)

lemma rand_Read_bytes:
  "stake (length buf) s = map Byte bs \<Longrightarrow>
   rand_Read buf s = (bs, length buf, None, sdrop (length buf) s)"
  by (induction buf s arbitrary: bs rule: rand_Read.induct)
     (auto split: cell.splits prod.splits)

lemma rand_Read_first_fault:
  "stake (length bs) s = map Byte bs \<Longrightarrow> s !! length bs = Fault e \<Longrightarrow>
   length bs < length buf \<Longrightarrow>
   rand_Read buf s = (bs @ drop (length bs) buf, length bs, Some e, sdrop (Suc (length bs)) s)"
proof (induction buf s arbitrary: bs rule: rand_Read.induct)
  case (1 s)
  then show ?case by simp
next
  case (2 b buf s)
  show ?case
  proof (cases bs)
    case Nil
    with 2 show ?thesis by simp
  next
    case (Cons x xs)
    with 2 show ?thesis by (auto split: cell.splits prod.splits)
  qed
qed

text \<open>A read that succeeds leaves nothing of the old buffer behind.\<close>

lemma rand_Read_indep:
  assumes len: "length buf = length buf'" and r: "rand_Read buf s = (b1, n, None, s')"
  shows "rand_Read buf' s = (b1, n, None, s')"
proof -
  from rand_Read_ok [OF r] len
  have "stake (length buf') s = map Byte b1" "n = length buf'" "s' = sdrop (length buf') s"
    by simp_all
  with rand_Read_bytes [of buf' s b1] show ?thesis by simp
qed

lemma rand_Read_indep_fault:
  assumes len: "length buf = length buf'" and r: "rand_Read buf s = (b1, n, Some e, s')"
  shows "\<exists>b2. rand_Read buf' s = (b2, n, Some e, s')"
proof -
  from rand_Read_fault [OF r] have f: "n < length buf" "s !! n = Fault e"
    "s' = sdrop (Suc n) s" "stake n s = map Byte (take n b1)" by simp_all
  from rand_Read_length [OF r] f(1) have l: "length (take n b1) = n" by simp
  from rand_Read_first_fault [of "take n b1" s e buf'] f l len show ?thesis by auto
qed

section \<open>One pass of the loop\<close>

lemma Int63_body_indep:
  assumes "length buf = length buf'"
  shows "Int63_body buf s = Int63_body buf' s"
proof -
  obtain b1 n err s' where r: "rand_Read buf s = (b1, n, err, s')"
    by (cases "rand_Read buf s") auto
  show ?thesis
  proof (cases err)
    case None
    with r rand_Read_indep [OF assms] have "rand_Read buf' s = (b1, n, None, s')" by simp
    with r None show ?thesis by (simp add: Int63_body_def)
  next
    case (Some e)
    with r rand_Read_indep_fault [OF assms]
    obtain b2 where "rand_Read buf' s = (b2, n, Some e, s')" by blast
    with r Some show ?thesis by (simp add: Int63_body_def)
  qed
qed

lemma Int63_body_length:
  assumes "Int63_body buf s = (Inr (x, buf2), s')"
  shows "length buf2 = length buf \<and> s' = sdrop (length buf) s"
proof -
  obtain b1 n err s1 where r: "rand_Read buf s = (b1, n, err, s1)"
    by (cases "rand_Read buf s") auto
  with assms have e: "err = None"
    by (cases err) (auto simp: Int63_body_def)
  from rand_Read_ok [OF r [unfolded e]] rand_Read_length [OF r]
  have "s1 = sdrop (length buf) s" "length b1 = length buf" by simp_all
  with assms r e show ?thesis
    by (auto simp: Int63_body_def Let_def split: list.splits option.splits)
qed

lemma bit_byte_high: "8 \<le> n \<Longrightarrow> \<not> bit (w :: byte) n"
  by (auto dest: bit_imp_le_length)

text \<open>Clearing the top bit of the first byte keeps the decoded value below \<open>2 ^ 63\<close>.\<close>

lemma BigEndian_masked_le:
  assumes a: "BigEndian_Uint64 ((b0 AND mask_c) # rest) = Some x"
  shows "x \<le> MaxInt64"
proof -
  have m: "mask_c = mask 7" by (simp add: mask_c_def mask_eq_exp_minus_1)
  have top: "\<not> bit x 63"
    using a by (auto simp: BigEndian_Uint64_def m bit_simps bit_byte_high split: if_splits)
  have "n < 63" if "bit x n" for n
  proof -
    from that have "n < 64" by (auto dest: bit_imp_le_length)
    moreover from that top have "n \<noteq> 63" by auto
    ultimately show ?thesis by arith
  qed
  then have "take_bit 63 x = x"
    by (auto simp: bit_eq_iff bit_simps)
  then have "unat x = take_bit 63 (unat x)"
    by (metis unsigned_take_bit_eq)
  then have "unat x < 2 ^ 63"
    by (metis take_bit_nat_less_exp)
  moreover have "unat MaxInt64 = 2 ^ 63 - 1"
    by (simp add: MaxInt64_def)
  ultimately show ?thesis
    by (simp add: word_le_nat_alt)
qed

lemma Int63_body_le:
  assumes "Int63_body buf s = (Inr (x, buf2), s')"
  shows "x \<le> MaxInt64"
  using assms
  by (auto simp: Int63_body_def Let_def split: prod.splits option.splits list.splits
      intro: BigEndian_masked_le)

text \<open>The value of a pass, in terms of the eight bytes that the facility delivers.\<close>

lemma fresh_value_bytes:
  assumes "stake 8 s = map Byte (b0 # rest)"
  shows "fresh_value s = BigEndian_Uint64 ((b0 AND mask_c) # rest)"
proof -
  have "length (make 8) = 8" by (simp add: make_def)
  with assms have "stake (length (make 8)) s = map Byte (b0 # rest)" by simp
  from rand_Read_bytes [OF this]
  show ?thesis
    by (simp add: fresh_value_def Int63_body_def Let_def split: option.splits)
qed

section \<open>The loop\<close>

lemma Int63_loop_indep:
  assumes "length buf = length buf'"
  shows "Int63_loop buf s = Int63_loop buf' s"
  by (subst Int63_loop.simps, subst (2) Int63_loop.simps)
     (simp add: Int63_body_indep [OF assms])

lemma Int63_unfold:
  assumes "fresh_value s = Some v"
  shows "Int63 s = (if v = MaxInt64 then Int63 (sdrop 8 s) else Some (Inr v, sdrop 8 s))"
proof -
  from assms obtain buf2 s' where b: "Int63_body (make 8) s = (Inr (v, buf2), s')"
    by (auto simp: fresh_value_def split: prod.splits sum.splits)
  from Int63_body_length [OF b] have l: "length buf2 = length (make 8)" and s': "s' = sdrop 8 s"
    by (simp_all add: make_def)
  from Int63_body_le [OF b] have "v < MaxInt64 \<longleftrightarrow> v \<noteq> MaxInt64" by auto
  with b s' Int63_loop_indep [OF l, of "sdrop 8 s"] show ?thesis
    unfolding Int63_def by (subst Int63_loop.simps) simp
qed

lemma sdrop_block: "sdrop (8 * j) (sdrop 8 s) = sdrop (8 * Suc j) s"
  by (simp add: sdrop_add)

lemma Int63_skip:
  "(\<forall>j<k. fresh_value (sdrop (8 * j) s) = Some MaxInt64) \<Longrightarrow>
   Int63 s = Int63 (sdrop (8 * k) s)"
proof (induction k arbitrary: s)
  case 0
  then show ?case by simp
next
  case (Suc k)
  from Suc.prems have "fresh_value (sdrop (8 * 0) s) = Some MaxInt64" by blast
  then have 1: "Int63 s = Int63 (sdrop 8 s)" using Int63_unfold [of s MaxInt64] by simp
  have "\<forall>j<k. fresh_value (sdrop (8 * j) (sdrop 8 s)) = Some MaxInt64"
    unfolding sdrop_block using Suc.prems by auto
  from Suc.IH [OF this] 1 show ?case unfolding sdrop_block by simp
qed


lemma Int63_returns:
  assumes "\<forall>j<k. fresh_value (sdrop (8 * j) s) = Some MaxInt64"
    and "fresh_value (sdrop (8 * k) s) = Some v" and "v \<noteq> MaxInt64"
  shows "Int63 s = Some (Inr v, sdrop (8 * Suc k) s)"
proof -
  from Int63_skip assms(1) have "Int63 s = Int63 (sdrop (8 * k) s)" by blast
  also from Int63_unfold [OF assms(2)] assms(3)
  have "Int63 (sdrop (8 * k) s) = Some (Inr v, sdrop 8 (sdrop (8 * k) s))" by simp
  finally show ?thesis by (simp add: sdrop_add add.commute)
qed

text \<open>
  The call ends, by a return or a panic, exactly when some block of eight cells is not
  a rejected one. On entropy whose every block has value \<open>2 ^ 63 - 1\<close> it never returns.
\<close>

lemma Int63_panics:
  assumes "fresh_value s = None"
  shows "\<exists>p s'. Int63 s = Some (Inl p, s')"
proof -
  from assms obtain p s' where "Int63_body (make 8) s = (Inl p, s')"
    by (auto simp: fresh_value_def split: prod.splits sum.splits)
  then have "Int63 s = Some (Inl p, s')"
    unfolding Int63_def by (subst Int63_loop.simps) simp
  then show ?thesis by blast
qed

lemma Int63_ends_now:
  assumes "fresh_value s \<noteq> Some MaxInt64"
  shows "\<exists>r. Int63 s = Some r"
proof (cases "fresh_value s")
  case None
  with Int63_panics show ?thesis by blast
next
  case (Some v)
  with assms Int63_unfold [OF Some] show ?thesis by auto
qed

lemma Int63_ends:
  "fresh_value (sdrop (8 * k) s) \<noteq> Some MaxInt64 \<Longrightarrow> \<exists>r. Int63 s = Some r"
proof (induction k arbitrary: s)
  case 0
  then show ?case using Int63_ends_now [of s] by simp
next
  case (Suc k)
  show ?case
  proof (cases "fresh_value s = Some MaxInt64")
    case True
    from Int63_unfold [OF True] have "Int63 s = Int63 (sdrop 8 s)" by simp
    moreover from Suc.prems have "fresh_value (sdrop (8 * k) (sdrop 8 s)) \<noteq> Some MaxInt64"
      unfolding sdrop_block .
    ultimately show ?thesis using Suc.IH [of "sdrop 8 s"] by simp
  next
    case False
    then show ?thesis by (rule Int63_ends_now)
  qed
qed

lemma Int63_loop_spins:
  assumes "Int63_loop buf s = Some r"
  shows "\<not> (length buf = 8 \<and> (\<forall>k. fresh_value (sdrop (8 * k) s) = Some MaxInt64))"
proof (rule Int63_loop.raw_induct
    [where P = "\<lambda>buf s r. \<not> (length buf = 8 \<and> (\<forall>k. fresh_value (sdrop (8 * k) s) = Some MaxInt64))",
      OF _ assms])
  fix f buf s r
  assume IH: "\<And>buf s r. f buf s = Some r \<Longrightarrow>
      \<not> (length buf = 8 \<and> (\<forall>k. fresh_value (sdrop (8 * k) s) = Some MaxInt64))"
    and body: "(case Int63_body buf s of
        (Inl p, s') \<Rightarrow> Some (Inl p, s')
      | (Inr (x, buf2), s') \<Rightarrow>
          if x < MaxInt64 then Some (Inr x, s') else f buf2 s') = Some r"
  show "\<not> (length buf = 8 \<and> (\<forall>k. fresh_value (sdrop (8 * k) s) = Some MaxInt64))"
  proof
    assume a: "length buf = 8 \<and> (\<forall>k. fresh_value (sdrop (8 * k) s) = Some MaxInt64)"
    then have len: "length buf = length (make 8)" by (simp add: make_def)
    from a have "fresh_value (sdrop (8 * 0) s) = Some MaxInt64" by blast
    then obtain buf2 s' where b: "Int63_body (make 8) s = (Inr (MaxInt64, buf2), s')"
      by (auto simp: fresh_value_def split: prod.splits sum.splits)
    from Int63_body_length [OF b] have l2: "length buf2 = 8" and s': "s' = sdrop 8 s"
      by (simp_all add: make_def)
    from b Int63_body_indep [OF len, of s] have "Int63_body buf s = (Inr (MaxInt64, buf2), s')"
      by simp
    with body s' have "f buf2 (sdrop 8 s) = Some r" by simp
    from IH [OF this] l2 obtain k where "fresh_value (sdrop (8 * k) (sdrop 8 s)) \<noteq> Some MaxInt64"
      by blast
    with a show False unfolding sdrop_block by blast
  qed
qed

lemma Int63_terminates_iff:
  "(\<exists>r. Int63 s = Some r) \<longleftrightarrow> (\<exists>k. fresh_value (sdrop (8 * k) s) \<noteq> Some MaxInt64)"
proof
  assume "\<exists>r. Int63 s = Some r"
  then obtain r where "Int63_loop (make 8) s = Some r" by (auto simp: Int63_def)
  from Int63_loop_spins [OF this] show "\<exists>k. fresh_value (sdrop (8 * k) s) \<noteq> Some MaxInt64"
    by (simp add: make_def)
next
  assume "\<exists>k. fresh_value (sdrop (8 * k) s) \<noteq> Some MaxInt64"
  then show "\<exists>r. Int63 s = Some r" using Int63_ends by blast
qed

lemma sdrop_sconst_blocks: "sdrop n (sconst c) = sconst c"
  by (induction n) simp_all

lemma Int63_first_fault:
  assumes "stake (length bs) s = map Byte bs" "s !! length bs = Fault e" "length bs < 8"
  shows "Int63 s = Some (Inl (EntropyPanic e), sdrop (Suc (length bs)) s)"
proof -
  from assms(3) have "length bs < length (make 8)" by (simp add: make_def)
  from rand_Read_first_fault [OF assms(1,2) this] show ?thesis
    unfolding Int63_def by (subst Int63_loop.simps) (simp add: Int63_body_def)
qed

section \<open>How much entropy a call consumes\<close>

lemma rand_Read_consumes:
  assumes "rand_Read buf s = (b, n, err, s')"
  shows "\<exists>m\<le>length buf. s' = sdrop m s"
proof (cases err)
  case None
  with assms rand_Read_ok [of buf s b n s'] show ?thesis by auto
next
  case (Some e)
  with assms rand_Read_fault [of buf s b n e s'] have "n < length buf" "s' = sdrop (Suc n) s"
    by simp_all
  then show ?thesis by (intro exI [of _ "Suc n"]) simp
qed

lemma Uint64_consumes: "\<exists>m\<le>8. snd (Uint64 s) = sdrop m s"
proof -
  obtain b n err s' where r: "rand_Read (make 8) s = (b, n, err, s')"
    by (cases "rand_Read (make 8) s") auto
  from rand_Read_consumes [OF r] obtain m where "m \<le> 8" "s' = sdrop m s"
    by (auto simp: make_def)
  moreover from r have "snd (Uint64 s) = s'"
    by (auto simp: Uint64_def split: option.splits)
  ultimately show ?thesis by auto
qed

lemma Read_consumes: "\<exists>m\<le>length p. snd (snd (snd (Read p s))) = sdrop m s"
proof -
  obtain b n err s' where r: "rand_Read p s = (b, n, err, s')"
    by (cases "rand_Read p s") auto
  from rand_Read_consumes [OF r] r show ?thesis by (simp add: Read_def)
qed

section \<open>Evaluation on given entropy\<close>

lemma make_8: "make 8 = [0, 0, 0, 0, 0, 0, 0, 0]"
  by (simp add: make_def numeral_eq_Suc)

lemma stake_8:
  "stake 8 s = [shd s, shd (stl s), shd (stl (stl s)), shd (stl (stl (stl s))),
     shd (stl (stl (stl (stl s)))), shd (stl (stl (stl (stl (stl s))))),
     shd (stl (stl (stl (stl (stl (stl s)))))), shd (stl (stl (stl (stl (stl (stl (stl s)))))))]"
  by (simp add: numeral_eq_Suc)

lemma sdrop_8: "sdrop 8 s = stl (stl (stl (stl (stl (stl (stl (stl s)))))))"
  by (simp add: numeral_eq_Suc)

section \<open>The range of Int63\<close>







section \<open>The rejection loop\<close>

text \<open>
  Claim C2. The loop of \<^verbatim>\<open>ExpSource.Int63\<close> is the only place where the package reads
  again. In order:
  \<^item> the value of a pass that reads the bytes \<open>b0, rest\<close> is the big-endian reading of
    those eight bytes with the top bit of \<open>b0\<close> cleared;
  \<^item> the loop does not depend on what its eight-byte buffer holds when a pass starts,
    so nothing of an earlier read survives into a later pass;
  \<^item> when a pass reads eight bytes with value \<open>v\<close>, the call returns \<open>v\<close> unless \<open>v\<close> is
    \<open>2 ^ 63 - 1\<close>, and in that case, and only then, it continues exactly as a new call
    on the entropy after those eight bytes;
  \<^item> if the first \<open>k\<close> blocks of eight bytes all have value \<open>2 ^ 63 - 1\<close> and the next
    block has another value \<open>w\<close>, the call returns \<open>w\<close> after consuming \<open>8 * (k + 1)\<close>
    cells: the loop terminates;
  \<^item> in general the call ends (returns or panics) if and only if some block of eight
    cells is not a rejected one; without that hypothesis it runs forever;
  \<^item> \<^verbatim>\<open>Uint64\<close> consumes at most eight cells and \<^verbatim>\<open>Read\<close> at most the length of its
    buffer, so neither reads again.
\<close>

theorem Int63_retry_loop:
  "(stake 8 s = map Byte (b0 # rest) \<longrightarrow>
      fresh_value s = BigEndian_Uint64 ((b0 AND mask_c) # rest)) \<and>
   (length buf = 8 \<longrightarrow> Int63_loop buf s = Int63 s) \<and>
   (fresh_value s = Some v \<longrightarrow>
      Int63 s = (if v = MaxInt64 then Int63 (sdrop 8 s) else Some (Inr v, sdrop 8 s))) \<and>
   ((\<forall>j<k. fresh_value (sdrop (8 * j) t) = Some MaxInt64) \<and>
      fresh_value (sdrop (8 * k) t) = Some w \<and> w \<noteq> MaxInt64 \<longrightarrow>
      Int63 t = Some (Inr w, sdrop (8 * Suc k) t)) \<and>
   ((\<exists>r. Int63 t = Some r) \<longleftrightarrow> (\<exists>k. fresh_value (sdrop (8 * k) t) \<noteq> Some MaxInt64)) \<and>
   (\<exists>m\<le>8. snd (Uint64 s) = sdrop m s) \<and>
   (\<exists>m\<le>length p. snd (snd (snd (Read p s))) = sdrop m s)"
proof (intro conjI impI)
  assume "stake 8 s = map Byte (b0 # rest)"
  then show "fresh_value s = BigEndian_Uint64 ((b0 AND mask_c) # rest)"
    by (rule fresh_value_bytes)
next
  assume "length buf = 8"
  then have "length buf = length (make 8)" by (simp add: make_def)
  from Int63_loop_indep [OF this] show "Int63_loop buf s = Int63 s" by (simp add: Int63_def)
next
  assume "fresh_value s = Some v"
  then show "Int63 s = (if v = MaxInt64 then Int63 (sdrop 8 s) else Some (Inr v, sdrop 8 s))"
    by (rule Int63_unfold)
next
  assume "(\<forall>j<k. fresh_value (sdrop (8 * j) t) = Some MaxInt64) \<and>
      fresh_value (sdrop (8 * k) t) = Some w \<and> w \<noteq> MaxInt64"
  then show "Int63 t = Some (Inr w, sdrop (8 * Suc k) t)"
    using Int63_returns [of k t w] by blast
next
  show "(\<exists>r. Int63 t = Some r) \<longleftrightarrow> (\<exists>k. fresh_value (sdrop (8 * k) t) \<noteq> Some MaxInt64)"
    by (rule Int63_terminates_iff)
next
  show "\<exists>m\<le>8. snd (Uint64 s) = sdrop m s" by (rule Uint64_consumes)
next
  show "\<exists>m\<le>length p. snd (snd (snd (Read p s))) = sdrop m s" by (rule Read_consumes)
qed

text \<open>
  One rejected block (eight bytes \<open>0xFF\<close>, value \<open>2 ^ 63 - 1\<close> after masking) followed by
  zeros: the call started on a buffer with other contents agrees with \<^verbatim>\<open>Int63\<close>, retries
  once and returns \<open>0\<close>. On entropy that is \<open>0xFF\<close> throughout the call never returns.
\<close>

theorem Int63_retry_loop_witness:
  "fresh_value (map Byte [255, 255, 255, 255, 255, 255, 255, 255] @- sconst (Byte 0)) = Some MaxInt64 \<and>
   fresh_value (sconst (Byte 0)) = Some 0 \<and>
   Int63_loop [1, 2, 3, 4, 5, 6, 7, 8]
      (map Byte [255, 255, 255, 255, 255, 255, 255, 255] @- sconst (Byte 0))
     = Int63 (map Byte [255, 255, 255, 255, 255, 255, 255, 255] @- sconst (Byte 0)) \<and>
   Int63 (map Byte [255, 255, 255, 255, 255, 255, 255, 255] @- sconst (Byte 0))
     = Int63 (sconst (Byte 0)) \<and>
   Int63 (map Byte [255, 255, 255, 255, 255, 255, 255, 255] @- sconst (Byte 0))
     = Some (Inr 0, sconst (Byte 0)) \<and>
   Int63 (sconst (Byte 255)) = None"
proof -
  let ?S = "map Byte [255, 255, 255, 255, 255, 255, 255, 255] @- sconst (Byte 0)"
  have d: "sdrop 8 ?S = sconst (Byte 0)"
    by (simp add: sdrop_8)
  have "sdrop (8 * Suc 1) ?S = sdrop (8 * 1) (sdrop 8 ?S)"
    by (rule sdrop_block [symmetric])
  also have "\<dots> = sconst (Byte 0)"
    unfolding d by (simp add: sdrop_8)
  finally have d2: "sdrop (8 * Suc 1) ?S = sconst (Byte 0)" .
  note T = Int63_retry_loop [where s = ?S and ?b0.0 = 255
      and rest = "[255, 255, 255, 255, 255, 255, 255]" and buf = "[1, 2, 3, 4, 5, 6, 7, 8]"
      and v = MaxInt64 and k = 1 and t = ?S and w = 0 and p = "[]"]
  have st: "stake 8 ?S = map Byte (255 # [255, 255, 255, 255, 255, 255, 255])"
    by (simp add: stake_8)
  from T st have "fresh_value ?S
      = BigEndian_Uint64 ((255 AND mask_c) # [255, 255, 255, 255, 255, 255, 255])"
    by blast
  then have f1: "fresh_value ?S = Some MaxInt64"
    by (simp add: BigEndian_Uint64_def MaxInt64_def mask_c_def)
  have f2: "fresh_value (sconst (Byte 0)) = Some 0"
    by (simp add: fresh_value_def make_8 Int63_body_def BigEndian_Uint64_def mask_c_def)
  have l: "length [1, 2, 3, 4, 5, 6, 7, 8 :: byte] = 8" by simp
  have a: "\<forall>j<1. fresh_value (sdrop (8 * j) ?S) = Some MaxInt64"
    using f1 by simp
  have b: "fresh_value (sdrop (8 * 1) ?S) = Some 0"
    using f2 d by simp
  have c: "(0 :: uint64) \<noteq> MaxInt64" by (simp add: MaxInt64_def)
  from T l have g1: "Int63_loop [1, 2, 3, 4, 5, 6, 7, 8] ?S = Int63 ?S"
    by blast
  from T f1 have "Int63 ?S =
      (if MaxInt64 = MaxInt64 then Int63 (sdrop 8 ?S) else Some (Inr MaxInt64, sdrop 8 ?S))"
    by blast
  then have g2: "Int63 ?S = Int63 (sconst (Byte 0))"
    unfolding d by simp
  from T a b c have "Int63 ?S = Some (Inr 0, sdrop (8 * Suc 1) ?S)"
    by blast
  then have g3: "Int63 ?S = Some (Inr 0, sconst (Byte 0))"
    unfolding d2 .
  have "fresh_value (sconst (Byte 255)) = Some MaxInt64"
    by (simp add: fresh_value_def make_8 Int63_body_def BigEndian_Uint64_def
        MaxInt64_def mask_c_def)
  then have "\<not> (\<exists>k. fresh_value (sdrop (8 * k) (sconst (Byte 255))) \<noteq> Some MaxInt64)"
    by (simp add: sdrop_sconst_blocks)
  with Int63_retry_loop [where t = "sconst (Byte 255)"]
  have "\<not> (\<exists>r. Int63 (sconst (Byte 255)) = Some r)"
    by blast
  then have g4: "Int63 (sconst (Byte 255)) = None"
    by (cases "Int63 (sconst (Byte 255))") auto
  from f1 f2 g1 g2 g3 g4 show ?thesis by blast
qed

section \<open>Failure of the entropy facility\<close>

lemma rand_Read_before_fault:
  assumes "stake (length bs) s = map Byte bs" "length p \<le> length bs"
  shows "rand_Read p s = (take (length p) bs, length p, None, sdrop (length p) s)"
proof -
  have "stake (length p) s = take (length p) (stake (length bs) s)"
    using assms(2) by (simp add: take_stake min_def)
  with assms(1) have "stake (length p) s = map Byte (take (length p) bs)"
    by (simp add: take_map)
  then show ?thesis by (rule rand_Read_bytes)
qed

text \<open>
  Claim C3. Let the facility deliver the bytes \<open>bs\<close> and then fail with error \<open>e\<close>.
  \<^item> If \<open>bs\<close> has fewer than eight bytes, \<^verbatim>\<open>Uint64\<close> panics with \<open>e\<close>, and so does
    \<^verbatim>\<open>Int63\<close>, also when the failure comes after any number of rejected blocks.
    Neither reads past the failure, so the read is not tried again, and neither
    returns a value.
  \<^item> \<^verbatim>\<open>Read\<close> on a buffer of any length greater than that of \<open>bs\<close> returns instead: the
    buffer with \<open>bs\<close> at its front and its old contents behind, the count \<open>length bs\<close>,
    and the error \<open>e\<close>.
  \<^item> \<^verbatim>\<open>Read\<close> on a buffer that \<open>bs\<close> fills does not meet the failure: it returns the
    full count and no error.
\<close>

theorem entropy_failure_paths:
  assumes "stake (length bs) s = map Byte bs" "s !! length bs = Fault e"
  shows "(length bs < 8 \<longrightarrow> Uint64 s = (Inl (EntropyPanic e), sdrop (Suc (length bs)) s)) \<and>
    (length bs < 8 \<longrightarrow>
      (\<forall>t k. (\<forall>j<k. fresh_value (sdrop (8 * j) t) = Some MaxInt64) \<and> sdrop (8 * k) t = s \<longrightarrow>
         Int63 t = Some (Inl (EntropyPanic e), sdrop (Suc (length bs)) s))) \<and>
    (\<forall>p. length bs < length p \<longrightarrow>
       Read p s = (bs @ drop (length bs) p, length bs, Some e, sdrop (Suc (length bs)) s)) \<and>
    (\<forall>p. length p \<le> length bs \<longrightarrow>
       Read p s = (take (length p) bs, length p, None, sdrop (length p) s))"
proof (intro conjI allI impI)
  assume "length bs < 8"
  then have "length bs < length (make 8)" by (simp add: make_def)
  from rand_Read_first_fault [OF assms this]
  show "Uint64 s = (Inl (EntropyPanic e), sdrop (Suc (length bs)) s)"
    by (simp add: Uint64_def)
next
  fix t k
  assume b: "length bs < 8"
    and a: "(\<forall>j<k. fresh_value (sdrop (8 * j) t) = Some MaxInt64) \<and> sdrop (8 * k) t = s"
  with Int63_skip [of k t] have "Int63 t = Int63 s" by simp
  with Int63_first_fault [OF assms b]
  show "Int63 t = Some (Inl (EntropyPanic e), sdrop (Suc (length bs)) s)" by simp
next
  fix p :: "byte list"
  assume "length bs < length p"
  from rand_Read_first_fault [OF assms this]
  show "Read p s = (bs @ drop (length bs) p, length bs, Some e, sdrop (Suc (length bs)) s)"
    by (simp add: Read_def)
next
  fix p :: "byte list"
  assume "length p \<le> length bs"
  from rand_Read_before_fault [OF assms(1) this]
  show "Read p s = (take (length p) bs, length p, None, sdrop (length p) s)"
    by (simp add: Read_def)
qed

text \<open>
  Three bytes and then a failure: both integer draws panic, the second after one
  rejected block; \<^verbatim>\<open>Read\<close> on a five-byte buffer returns count \<open>3\<close> and the error, and on
  a two-byte buffer count \<open>2\<close> and no error. Ten bytes and then a failure: \<^verbatim>\<open>Read\<close> on a
  twelve-byte buffer returns count \<open>10\<close> and the error.
\<close>

theorem entropy_failure_paths_witness:
  "Uint64 (map Byte [1, 2, 3] @- Fault (EntropyError 5) ## sconst (Byte 0))
     = (Inl (EntropyPanic (EntropyError 5)), sconst (Byte 0)) \<and>
   Int63 (map Byte [255, 255, 255, 255, 255, 255, 255, 255]
        @- map Byte [1, 2, 3] @- Fault (EntropyError 5) ## sconst (Byte 0))
     = Some (Inl (EntropyPanic (EntropyError 5)), sconst (Byte 0)) \<and>
   Read [9, 9, 9, 9, 9] (map Byte [1, 2, 3] @- Fault (EntropyError 5) ## sconst (Byte 0))
     = ([1, 2, 3, 9, 9], 3, Some (EntropyError 5), sconst (Byte 0)) \<and>
   Read [9, 9] (map Byte [1, 2, 3] @- Fault (EntropyError 5) ## sconst (Byte 0))
     = ([1, 2], 2, None, Byte 3 ## Fault (EntropyError 5) ## sconst (Byte 0)) \<and>
   Read [0, 0, 0, 0, 0, 0, 0, 0, 0, 0, 0, 0]
      (map Byte [1, 2, 3, 4, 5, 6, 7, 8, 9, 10] @- Fault (EntropyError 5) ## sconst (Byte 0))
     = ([1, 2, 3, 4, 5, 6, 7, 8, 9, 10, 0, 0], 10, Some (EntropyError 5), sconst (Byte 0))"
proof -
  let ?s = "map Byte [1, 2, 3] @- Fault (EntropyError 5) ## sconst (Byte 0)"
  let ?t = "map Byte [255, 255, 255, 255, 255, 255, 255, 255] @- ?s"
  let ?l = "[1, 2, 3, 4, 5, 6, 7, 8, 9, 10 :: byte]"
  let ?u = "map Byte ?l @- Fault (EntropyError 5) ## sconst (Byte 0)"
  have h1: "stake (length [1, 2, 3 :: byte]) ?s = map Byte [1, 2, 3]"
    by (simp add: numeral_eq_Suc)
  have h2: "?s !! length [1, 2, 3 :: byte] = Fault (EntropyError 5)"
    by (simp add: numeral_eq_Suc)
  have h3: "length [1, 2, 3 :: byte] < 8" by simp
  have d: "sdrop (Suc (length [1, 2, 3 :: byte])) ?s = sconst (Byte 0)"
    by (simp add: numeral_eq_Suc)
  have d': "sdrop (length [9, 9 :: byte]) ?s = Byte 3 ## Fault (EntropyError 5) ## sconst (Byte 0)"
    by (simp add: numeral_eq_Suc)
  have f: "fresh_value ?t = Some MaxInt64"
    by (simp add: fresh_value_def make_8 Int63_body_def BigEndian_Uint64_def
        MaxInt64_def mask_c_def)
  have a: "(\<forall>j<1. fresh_value (sdrop (8 * j) ?t) = Some MaxInt64) \<and> sdrop (8 * 1) ?t = ?s"
    using f by (simp add: sdrop_8)
  have p: "length [1, 2, 3 :: byte] < length [9, 9, 9, 9, 9 :: byte]" by simp
  have q: "length [9, 9 :: byte] \<le> length [1, 2, 3 :: byte]" by simp
  note T = entropy_failure_paths [OF h1 h2]
  from T h3 have g1: "Uint64 ?s
      = (Inl (EntropyPanic (EntropyError 5)), sdrop (Suc (length [1, 2, 3 :: byte])) ?s)"
    by blast
  from T h3 a have g2: "Int63 ?t
      = Some (Inl (EntropyPanic (EntropyError 5)), sdrop (Suc (length [1, 2, 3 :: byte])) ?s)"
    by blast
  from T p have g3: "Read [9, 9, 9, 9, 9] ?s
      = ([1, 2, 3] @ drop (length [1, 2, 3 :: byte]) [9, 9, 9, 9, 9],
         length [1, 2, 3 :: byte], Some (EntropyError 5), sdrop (Suc (length [1, 2, 3 :: byte])) ?s)"
    by blast
  from T q have g4: "Read [9, 9] ?s
      = (take (length [9, 9 :: byte]) [1, 2, 3], length [9, 9 :: byte], None,
         sdrop (length [9, 9 :: byte]) ?s)"
    by blast
  have k1: "stake (length ?l) ?u = map Byte ?l"
    by (simp add: numeral_eq_Suc)
  have k2: "?u !! length ?l = Fault (EntropyError 5)"
    by (simp add: numeral_eq_Suc)
  have k3: "length ?l < length [0, 0, 0, 0, 0, 0, 0, 0, 0, 0, 0, 0 :: byte]" by simp
  have k4: "sdrop (Suc (length ?l)) ?u = sconst (Byte 0)"
    by (simp add: numeral_eq_Suc)
  from entropy_failure_paths [OF k1 k2] k3
  have g5: "Read [0, 0, 0, 0, 0, 0, 0, 0, 0, 0, 0, 0] ?u
      = (?l @ drop (length ?l) [0, 0, 0, 0, 0, 0, 0, 0, 0, 0, 0, 0],
         length ?l, Some (EntropyError 5), sdrop (Suc (length ?l)) ?u)"
    by blast
  from g1 g2 g3 show ?thesis unfolding d g4 [unfolded d'] g5 [unfolded k4] by simp
qed

section \<open>Seeding\<close>

text \<open>
  Claim C5. \<^verbatim>\<open>Seed\<close> and \<^verbatim>\<open>ExpSource.Seed\<close> discard their argument and change nothing:
  for every seed value the state after the call is the state before it, and \<^verbatim>\<open>Int63\<close>,
  \<^verbatim>\<open>Uint64\<close> and \<^verbatim>\<open>Read\<close> give after the call what they give without it.
\<close>

theorem Seed_noop:
  "Seed v s = s \<and> ExpSource_Seed v s = s \<and>
   Int63 (Seed v s) = Int63 s \<and> Int63 (ExpSource_Seed v s) = Int63 s \<and>
   Uint64 (Seed v s) = Uint64 s \<and> Uint64 (ExpSource_Seed v s) = Uint64 s \<and>
   Read p (Seed v s) = Read p s \<and> Read p (ExpSource_Seed v s) = Read p s"
  by (simp add: Seed_def ExpSource_Seed_def)

end
